theory Spec2Isabelle
  imports Main "HOL-Library.Word"
begin

unbundle bit_operations_syntax

section \<open>The data model of \<open>tsl::uint_n\<close>\<close>

text \<open>
  \<open>uint_n<BITS_COUNT, UINT_TYPE>\<close> has one data member, \<open>storage_type bits\<close>, a
  \<open>std::array\<close> of \<open>(N + S - 1) / S\<close> words of type \<open>UINT_TYPE\<close>, where
  \<open>S = sizeof(uint_type) * CHAR_BIT\<close>.  The word type is the type parameter \<open>'a\<close> of
  \<open>'a word\<close> and \<open>S\<close> is \<open>LENGTH('a)\<close>; the array is a list whose length is the word
  count; the template parameter \<open>N\<close> is passed to the one function that reads it
  (\<open>popcount\<close>).  Index 0 of the list is \<open>bits[0]\<close>.
\<close>

type_synonym 'a storage_type = "'a word list"

definition word_count :: "nat \<Rightarrow> nat \<Rightarrow> nat" where
  "word_count N S = (N + S - 1) div S"

text \<open>
  What can go wrong in the C++: an array read or write outside \<open>[0, size)\<close>, and a shift
  whose amount is not smaller than the width of the (promoted) left operand.  Both are
  undefined behaviour; the model returns \<open>None\<close> there.
\<close>

subsection \<open>Constructors\<close>

text \<open>
  \<open>uint_n() = default;\<close> with a member \<open>bits\<close> that has no initializer.  The constructor
  is not user-provided, so value-initialization (\<open>uint_n<N>()\<close>, \<open>uint_n<N> x{}\<close>, as the
  test \<open>test_set\<close> writes it) zero-initializes the array first, while
  default-initialization (\<open>uint_n<N> x;\<close>) leaves the words of an automatic object
  indeterminate: any array of the right length may be observed.
\<close>

definition uint_n_value_init :: "nat \<Rightarrow> 'a::len storage_type" where
  "uint_n_value_init N = replicate (word_count N LENGTH('a)) 0"

definition uint_n_default_init :: "nat \<Rightarrow> 'a::len storage_type \<Rightarrow> bool" where
  "uint_n_default_init N v = (length v = word_count N LENGTH('a))"

text \<open>\<open>explicit uint_n(uint_type x): bits() { bits.back() = x; }\<close>\<close>

definition uint_n_of_word :: "nat \<Rightarrow> 'a::len word \<Rightarrow> 'a storage_type" where
  "uint_n_of_word N x =
     (let bits = replicate (word_count N LENGTH('a)) 0
      in bits[length bits - 1 := x])"

text \<open>
  \<open>uint_n(Args... args): bits{{args...}}\<close>, enabled only if
  \<open>sizeof...(Args) > 1 && sizeof...(Args) == storage_type().size()\<close>; any other argument
  count does not compile, which is \<open>None\<close> here.
\<close>

definition uint_n_of_words :: "nat \<Rightarrow> 'a::len word list \<Rightarrow> 'a storage_type option" where
  "uint_n_of_words N args =
     (if 1 < length args \<and> length args = word_count N LENGTH('a) then Some args else None)"

subsection \<open>Single-bit operations\<close>

text \<open>
  \<open>bits[bits.size() - global_pos - 1]\<close>: the subtraction is on \<open>size_t\<close>; if
  \<open>global_pos \<ge> bits.size()\<close> it wraps around to a value that is at least
  \<open>bits.size()\<close>, so the access is out of range exactly then.
\<close>

definition storage_index :: "nat \<Rightarrow> nat \<Rightarrow> nat option" where
  "storage_index sz global_pos =
     (if global_pos < sz then Some (sz - global_pos - 1) else None)"

text \<open>
  \<open>tsl_uint_assert(pos < N)\<close> expands to nothing unless \<open>TSL_DEBUG\<close> is defined;
  \<open>test\<close>, \<open>set\<close> and \<open>unset\<close> are modelled as compiled without it, and
  \<open>tsl_uint_assert\<close> is what the debug build checks first.
\<close>

definition tsl_uint_assert :: "bool \<Rightarrow> unit option" where
  "tsl_uint_assert expr = (if expr then Some () else None)"

definition test :: "'a::len storage_type \<Rightarrow> nat \<Rightarrow> bool option" where
  "test bits pos =
     (let local_pos = pos mod LENGTH('a);
          global_pos = pos div LENGTH('a)
      in case storage_index (length bits) global_pos of
           None \<Rightarrow> None
         | Some i \<Rightarrow> Some (bits ! i AND push_bit local_pos 1 \<noteq> 0))"

definition set_uint_n :: "'a::len storage_type \<Rightarrow> nat \<Rightarrow> 'a storage_type option" where
  "set_uint_n bits pos =
     (let local_pos = pos mod LENGTH('a);
          global_pos = pos div LENGTH('a)
      in case storage_index (length bits) global_pos of
           None \<Rightarrow> None
         | Some i \<Rightarrow> Some (bits[i := bits ! i OR push_bit local_pos 1]))"

definition unset :: "'a::len storage_type \<Rightarrow> nat \<Rightarrow> 'a storage_type option" where
  "unset bits pos =
     (let local_pos = pos mod LENGTH('a);
          global_pos = pos div LENGTH('a)
      in case storage_index (length bits) global_pos of
           None \<Rightarrow> None
         | Some i \<Rightarrow> Some (bits[i := bits ! i AND NOT (push_bit local_pos 1)]))"

text \<open>The same three operations as a \<open>TSL_DEBUG\<close> build runs them.\<close>

definition test_debug :: "nat \<Rightarrow> 'a::len storage_type \<Rightarrow> nat \<Rightarrow> bool option" where
  "test_debug N bits pos =
     (case tsl_uint_assert (pos < N) of None \<Rightarrow> None | Some _ \<Rightarrow> test bits pos)"

definition set_debug :: "nat \<Rightarrow> 'a::len storage_type \<Rightarrow> nat \<Rightarrow> 'a storage_type option" where
  "set_debug N bits pos =
     (case tsl_uint_assert (pos < N) of None \<Rightarrow> None | Some _ \<Rightarrow> set_uint_n bits pos)"

definition unset_debug :: "nat \<Rightarrow> 'a::len storage_type \<Rightarrow> nat \<Rightarrow> 'a storage_type option" where
  "unset_debug N bits pos =
     (case tsl_uint_assert (pos < N) of None \<Rightarrow> None | Some _ \<Rightarrow> unset bits pos)"

subsection \<open>Shifts of the word type\<close>

text \<open>
  In \<open>a << k\<close> and \<open>a >> k\<close> the operand \<open>a\<close> of type \<open>uint_type\<close> is first promoted: a
  type narrower than \<open>int\<close> (\<open>uint8_t\<close>, \<open>uint16_t\<close>) becomes a 32-bit \<open>int\<close>, a wider one
  keeps its width.  The shift is undefined if \<open>k\<close> is not smaller than the promoted
  width.  Otherwise the result, stored back into a \<open>uint_type\<close>, is the word shifted with
  the bits that leave it dropped; no intermediate value exceeds an \<open>int\<close>, since the
  amounts used with \<open><<\<close> are below \<open>S\<close>.
\<close>

definition promoted_width :: "nat \<Rightarrow> nat" where
  "promoted_width S = (if S < 32 then 32 else S)"

definition shl_word :: "'a::len word \<Rightarrow> nat \<Rightarrow> 'a word option" where
  "shl_word a k = (if k < promoted_width LENGTH('a) then Some (push_bit k a) else None)"

definition shr_word :: "'a::len word \<Rightarrow> nat \<Rightarrow> 'a word option" where
  "shr_word a k = (if k < promoted_width LENGTH('a) then Some (drop_bit k a) else None)"

subsection \<open>Left shift\<close>

text \<open>
  The \<open>for\<close> loop of \<open>operator<<=\<close> from index \<open>i\<close> on, updating the array in
  place; the \<open>continue\<close> of the source is the last branch.
\<close>

function shl_loop :: "nat \<Rightarrow> nat \<Rightarrow> 'a::len storage_type \<Rightarrow> 'a storage_type option" where
  "shl_loop pos i bits =
     (if i < length bits then
        (let upper = pos div LENGTH('a);
             lower = upper + 1;
             shift = pos mod LENGTH('a)
         in if i + upper < length bits then
              (case shl_word (bits ! (i + upper)) shift of
                 None \<Rightarrow> None
               | Some u \<Rightarrow>
                   (let bits1 = bits[i := u]
                    in if i + lower < length bits1 then
                         (case shr_word (bits1 ! (i + lower)) (LENGTH('a) - shift) of
                            None \<Rightarrow> None
                          | Some l \<Rightarrow> shl_loop pos (i + 1) (bits1[i := bits1 ! i OR l]))
                       else shl_loop pos (i + 1) bits1))
            else shl_loop pos (i + 1) (bits[i := 0]))
      else Some bits)"
  by pat_completeness auto
termination
  by (relation "measure (\<lambda>(pos, i, bits). length bits - i)") auto

declare shl_loop.simps [simp del]

text \<open>\<open>operator<<=\<close>, and \<open>operator<<\<close>, which copies \<open>*this\<close> and applies it to the copy.\<close>

definition shl_assign :: "'a::len storage_type \<Rightarrow> nat \<Rightarrow> 'a storage_type option" where
  "shl_assign bits pos = shl_loop pos 0 bits"

definition shl :: "'a::len storage_type \<Rightarrow> nat \<Rightarrow> 'a storage_type option" where
  "shl bits pos = shl_assign bits pos"

subsection \<open>Bitwise and\<close>

text \<open>
  \<open>for (i = 0; i < bits.size(); ++i) bits[i] &= rhs.bits[i];\<close>  Both operands are of the
  same instantiation, hence of the same length.
\<close>

definition and_assign :: "'a::len storage_type \<Rightarrow> 'a storage_type \<Rightarrow> 'a storage_type" where
  "and_assign bits rhs = fold (\<lambda>i b. b[i := b ! i AND rhs ! i]) [0..<length bits] bits"

definition and_op :: "'a::len storage_type \<Rightarrow> 'a storage_type \<Rightarrow> 'a storage_type" where
  "and_op bits rhs = and_assign bits rhs"

subsection \<open>Pre-decrement\<close>

text \<open>
  \<open>for (i = bits.size() - 1; i != size_t(0) - 1; --i)\<close>: the first argument is \<open>i + 1\<close>,
  the number of words not yet visited, so that \<open>0\<close> is the wrapped-around \<open>i\<close> at which
  the loop ends.  \<open>--bits[i]\<close> on a zero word wraps to the maximum of the word type.
\<close>

fun dec_loop :: "nat \<Rightarrow> 'a::len storage_type \<Rightarrow> 'a storage_type" where
  "dec_loop 0 bits = bits"
| "dec_loop (Suc i) bits =
     (if bits ! i \<noteq> 0 then bits[i := bits ! i - 1]
      else dec_loop i (bits[i := bits ! i - 1]))"

definition pre_decrement :: "'a::len storage_type \<Rightarrow> 'a storage_type" where
  "pre_decrement bits = dec_loop (length bits) bits"

subsection \<open>Population count\<close>

text \<open>\<open>builtin_popcount(uint64_t x)\<close>: the number of one bits of a 64-bit value.\<close>

definition builtin_popcount :: "64 word \<Rightarrow> nat" where
  "builtin_popcount x = length (filter (bit x) [0..<64])"

text \<open>
  \<open>auto first = N % S ? N % S : S;\<close> of \<open>popcount\<close> (and of the stream output): the
  number of bits of \<open>bits[0]\<close> that belong to the \<open>N\<close>-bit value.
\<close>

definition first_bits :: "nat \<Rightarrow> nat \<Rightarrow> nat" where
  "first_bits N S = (if N mod S \<noteq> 0 then N mod S else S)"

text \<open>
  \<open>popcount\<close>: the argument of \<open>builtin_popcount\<close> is converted to \<open>uint64_t\<close>
  (\<open>ucast\<close>).  \<open>uint_type(1) << first\<close> is evaluated only for \<open>first < S\<close>.
\<close>

definition popcount :: "nat \<Rightarrow> 'a::len storage_type \<Rightarrow> nat" where
  "popcount N x =
     (let S = LENGTH('a);
          first = first_bits N S;
          ret = (if first = S then 0
                 else builtin_popcount (ucast ((push_bit first 1 - 1) AND x ! 0)))
      in fold (\<lambda>i ret. ret + builtin_popcount (ucast (x ! i))) [1..<length x] ret)"

subsection \<open>Functions used to state the properties\<close>

text \<open>
  Word \<open>j\<close> of the shifted array in terms of the original one, with the shifts of the
  word type taken as total.
\<close>

definition shl_result :: "nat \<Rightarrow> 'a::len storage_type \<Rightarrow> nat \<Rightarrow> 'a word" where
  "shl_result pos bits j =
     (let upper = pos div LENGTH('a); shift = pos mod LENGTH('a)
      in if j + upper < length bits then
           push_bit shift (bits ! (j + upper))
           OR (if j + upper + 1 < length bits
               then drop_bit (LENGTH('a) - shift) (bits ! (j + upper + 1)) else 0)
         else 0)"

text \<open>
  The one undefined operation the loop can reach: the right shift by \<open>S - shift\<close> when
  \<open>shift = 0\<close>, for a word type that is not promoted to a wider \<open>int\<close>, at an index
  that has a lower neighbour to read.
\<close>

definition shl_defined :: "nat \<Rightarrow> 'a::len storage_type \<Rightarrow> bool" where
  "shl_defined pos bits =
     (pos mod LENGTH('a) \<noteq> 0 \<or> LENGTH('a) < 32 \<or> length bits \<le> pos div LENGTH('a) + 1)"

text \<open>
  The number a stored array denotes, most significant word first, and the logical value
  of an \<open>N\<close>-bit \<open>uint_n\<close> as \<open>test\<close> shows it: the sum of \<open>2 ^ q\<close> over the positions
  \<open>q < N\<close> that test as 1.
\<close>

fun val_be :: "'a::len storage_type \<Rightarrow> int" where
  "val_be [] = 0"
| "val_be (w # ws) = uint w * 2 ^ (LENGTH('a) * length ws) + val_be ws"

definition logical_value :: "nat \<Rightarrow> 'a::len storage_type \<Rightarrow> int" where
  "logical_value N bits = (\<Sum>q\<leftarrow>[0..<N]. if test bits q = Some True then 2 ^ q else 0)"

text \<open>
  The number of positions below \<open>N\<close> that test as 1, and the number of one bits of a
  word.
\<close>

definition logical_popcount :: "nat \<Rightarrow> 'a::len storage_type \<Rightarrow> nat" where
  "logical_popcount N bits = length (filter (\<lambda>q. test bits q = Some True) [0..<N])"

definition word_popcount :: "'a::len word \<Rightarrow> nat" where
  "word_popcount w = length (filter (bit w) [0..<LENGTH('a)])"

section \<open>Word count and bit addressing\<close>

lemma word_count_covers:
  assumes "0 < S"
  shows "N \<le> word_count N S * S"
proof -
  have "(N + S - 1) mod S < S" using assms by simp
  moreover have "word_count N S * S + (N + S - 1) mod S = N + S - 1"
    by (simp add: word_count_def)
  ultimately show ?thesis by linarith
qed

lemma index_in_range:
  assumes "pos < N" "0 < S"
  shows "pos div S < word_count N S"
proof -
  have "pos < word_count N S * S"
    using assms word_count_covers [of S N] by linarith
  then show ?thesis by (rule less_mult_imp_div_less)
qed

text \<open>
  \<open>test\<close>, \<open>set\<close> and \<open>unset\<close> unfolded: \<open>bits[i] & (uint_type(1) << local_pos)\<close>
  converted to \<open>bool\<close> is bit \<open>local_pos\<close> of \<open>bits[i]\<close>.
\<close>

lemma test_bit:
  "test (bits :: 'a::len storage_type) pos =
     (if pos div LENGTH('a) < length bits
      then Some (bit (bits ! (length bits - pos div LENGTH('a) - 1)) (pos mod LENGTH('a)))
      else None)"
  by (simp add: test_def storage_index_def bit_iff_and_push_bit_not_eq_0)

lemma bit_set_word:
  "n < LENGTH('a) \<Longrightarrow> bit ((w :: 'a::len word) OR push_bit k 1) n = (bit w n \<or> n = k)"
  by (auto simp add: bit_simps)

lemma bit_unset_word:
  "n < LENGTH('a) \<Longrightarrow> bit ((w :: 'a::len word) AND NOT (push_bit k 1)) n = (bit w n \<and> n \<noteq> k)"
  by (auto simp add: bit_simps)

lemma word_count_cases:
  assumes "0 < S"
  shows "word_count N S = (if N mod S = 0 then N div S else N div S + 1)"
proof -
  have N: "N = S * (N div S) + N mod S" by simp
  have r: "N mod S < S" using assms by simp
  show ?thesis
  proof (cases "N mod S = 0")
    case True
    have "(N + S - 1) div S = N div S"
    proof (rule div_nat_eqI)
      show "S * (N div S) \<le> N + S - 1" using N assms by linarith
      show "N + S - 1 < S * Suc (N div S)" using N True assms by simp
    qed
    then show ?thesis using True by (simp add: word_count_def)
  next
    case False
    have "(N + S - 1) div S = N div S + 1"
    proof (rule div_nat_eqI)
      have "S * (N div S + 1) = S * (N div S) + S" by simp
      then show "S * (N div S + 1) \<le> N + S - 1" using N False by linarith
      have "S * Suc (N div S + 1) = S * (N div S) + S + S" by simp
      then show "N + S - 1 < S * Suc (N div S + 1)" using N r by linarith
    qed
    then show ?thesis using False by (simp add: word_count_def)
  qed
qed

lemma top_word_offset:
  assumes "0 < S" "pos < N" "pos div S = word_count N S - 1"
  shows "pos mod S < first_bits N S"
proof -
  have p: "pos = S * (pos div S) + pos mod S" by simp
  have N: "N = S * (N div S) + N mod S" by simp
  show ?thesis
  proof (cases "N mod S = 0")
    case True
    then show ?thesis using assms by (simp add: first_bits_def)
  next
    case False
    then have "pos div S = N div S" using assms by (simp add: word_count_cases)
    then have "S * (N div S) + pos mod S < S * (N div S) + N mod S"
      using p N assms(2) by metis
    then have "pos mod S < N mod S" by linarith
    then show ?thesis using False by (simp add: first_bits_def)
  qed
qed

lemma set_uint_n_eq:
  "set_uint_n (bits :: 'a::len storage_type) pos =
     (if pos div LENGTH('a) < length bits
      then Some (bits[length bits - pos div LENGTH('a) - 1 :=
                   bits ! (length bits - pos div LENGTH('a) - 1) OR push_bit (pos mod LENGTH('a)) 1])
      else None)"
  by (simp add: set_uint_n_def storage_index_def Let_def)

lemma unset_eq:
  "unset (bits :: 'a::len storage_type) pos =
     (if pos div LENGTH('a) < length bits
      then Some (bits[length bits - pos div LENGTH('a) - 1 :=
                   bits ! (length bits - pos div LENGTH('a) - 1) AND NOT (push_bit (pos mod LENGTH('a)) 1)])
      else None)"
  by (simp add: unset_def storage_index_def Let_def)

text \<open>
  Claim C10.  Under the precondition \<open>pos < N\<close>, for an array of the instantiation's
  length \<open>W = (N + S - 1) / S\<close>: \<open>pos / S\<close> is at most \<open>W - 1\<close>, the index
  \<open>W - 1 - pos / S\<close> does not underflow and is smaller than \<open>W\<close>, none of \<open>test\<close>,
  \<open>set\<close>, \<open>unset\<close> reaches the out-of-range branch, and the debug assertion passes, so
  that the debug build computes what the release build computes.
\<close>

theorem storage_index_in_bounds:
  fixes bits :: "'a::len storage_type"
  assumes "length bits = word_count N LENGTH('a)" and "pos < N"
  shows "pos div LENGTH('a) \<le> length bits - 1
       \<and> 0 \<le> int (length bits) - int (pos div LENGTH('a)) - 1
       \<and> storage_index (length bits) (pos div LENGTH('a))
             = Some (length bits - 1 - pos div LENGTH('a))
       \<and> length bits - 1 - pos div LENGTH('a) < length bits
       \<and> test bits pos \<noteq> None \<and> set_uint_n bits pos \<noteq> None \<and> unset bits pos \<noteq> None
       \<and> tsl_uint_assert (pos < N) = Some ()
       \<and> test_debug N bits pos = test bits pos
       \<and> set_debug N bits pos = set_uint_n bits pos
       \<and> unset_debug N bits pos = unset bits pos"
proof -
  have "pos div LENGTH('a) < length bits"
    using assms index_in_range [of pos N "LENGTH('a)"] by simp
  then show ?thesis
    using assms(2)
    by (auto simp add: storage_index_def test_bit set_uint_n_eq unset_eq tsl_uint_assert_def
        test_debug_def set_debug_def unset_debug_def)
qed

theorem storage_index_in_bounds_witness:
  "length [5, 144 :: 8 word] = word_count 11 LENGTH(8) \<and> (10::nat) < 11
   \<and> storage_index (length [5, 144 :: 8 word]) (10 div LENGTH(8)) = Some 0
   \<and> test [5, 144 :: 8 word] 10 \<noteq> None"
  using storage_index_in_bounds [of "[5, 144 :: 8 word]" 11 10]
  by (simp add: word_count_def)

lemma word_count_first:
  assumes "0 < S" "0 < N"
  shows "0 < word_count N S" and "N = (word_count N S - 1) * S + first_bits N S"
proof -
  show "0 < word_count N S" using index_in_range [of 0 N S] assms by simp
  have N: "N = (N div S) * S + N mod S" by simp
  show "N = (word_count N S - 1) * S + first_bits N S"
  proof (cases "N mod S = 0")
    case True
    then have "0 < N div S" using assms by (metis N add.right_neutral mult_is_0 neq0_conv)
    then have "(N div S - 1) * S + S = N div S * S"
      by (metis Suc_pred' mult_Suc One_nat_def add.commute Suc_diff_1 diff_Suc_1)
    then show ?thesis using True N assms by (simp add: word_count_cases first_bits_def)
  next
    case False
    then show ?thesis using assms by (simp add: word_count_cases first_bits_def)
  qed
qed

section \<open>Construction from words\<close>

text \<open>
  Claim C6.  For \<open>W > 1\<close> words given to the multi-word constructor and \<open>pos < N\<close>,
  \<open>test(pos)\<close> of the constructed value is bit \<open>pos mod S\<close> of the argument at
  index \<open>W - 1 - pos / S\<close>.  Where that index is 0 the bit offset is below \<open>first\<close>:
  replacing \<open>bits[0]\<close> by any word with the same low \<open>first\<close> bits, that is changing
  the padding bits at will, changes no \<open>test(pos)\<close>.
\<close>

theorem packing_round_trip:
  fixes args :: "'a::len word list"
  assumes "uint_n_of_words N args = Some v" and "pos < N"
  shows "test v pos = Some (bit (args ! (length args - 1 - pos div LENGTH('a))) (pos mod LENGTH('a)))
       \<and> (length args - 1 - pos div LENGTH('a) = 0 \<longrightarrow> pos mod LENGTH('a) < first_bits N LENGTH('a))
       \<and> (\<forall>w. take_bit (first_bits N LENGTH('a)) w = take_bit (first_bits N LENGTH('a)) (args ! 0)
              \<longrightarrow> test (v[0 := w]) pos = test v pos)"
proof -
  let ?S = "LENGTH('a)"
  from assms(1) have v: "v = args" and len: "length args = word_count N ?S" and W: "1 < length args"
    by (auto simp: uint_n_of_words_def split: if_splits)
  have idx: "pos div ?S < length args"
    using index_in_range [of pos N ?S] assms(2) len by simp
  have top: "pos mod ?S < first_bits N ?S" if "length args - 1 - pos div ?S = 0"
  proof -
    from that idx have "pos div ?S = word_count N ?S - 1" using len by linarith
    then show ?thesis using top_word_offset [of ?S pos N] assms(2) by simp
  qed
  have pad: "test (v[0 := w]) pos = test v pos"
    if w: "take_bit (first_bits N ?S) w = take_bit (first_bits N ?S) (args ! 0)" for w
  proof (cases "length args - 1 - pos div ?S = 0")
    case True
    from w have "bit (take_bit (first_bits N ?S) w) (pos mod ?S)
               = bit (take_bit (first_bits N ?S) (args ! 0)) (pos mod ?S)" by simp
    then have "bit w (pos mod ?S) = bit (args ! 0) (pos mod ?S)"
      using top [OF True] by (simp add: bit_take_bit_iff)
    moreover have "0 < length args" using W by linarith
    ultimately show ?thesis using True idx by (simp add: test_bit v)
  next
    case False
    then show ?thesis using idx by (simp add: test_bit v)
  qed
  show ?thesis using idx top pad by (simp add: test_bit v)
qed

theorem packing_round_trip_witness:
  "uint_n_of_words 11 [5, 144 :: 8 word] = Some [5, 144] \<and> (10::nat) < 11
   \<and> test [5, 144 :: 8 word] 10 = Some True
   \<and> test ([5, 144 :: 8 word][0 := 253]) 10 = Some True"
  using packing_round_trip [of 11 "[5, 144 :: 8 word]" "[5, 144]" 10]
  by (simp add: uint_n_of_words_def word_count_def first_bits_def test_bit)

section \<open>Setting and clearing one bit\<close>

lemma same_word_other_offset:
  assumes "q \<noteq> pos" "q div S = pos div S"
  shows "q mod S \<noteq> pos mod (S::nat)"
  using assms by (metis div_mult_mod_eq)

lemma bit_set_word_exp:
  "n < LENGTH('a) \<Longrightarrow> bit ((w :: 'a::len word) OR 2 ^ k) n = (bit w n \<or> n = k)"
  using bit_set_word [of n w k] by simp

lemma bit_unset_word_exp:
  "n < LENGTH('a) \<Longrightarrow> bit ((w :: 'a::len word) AND NOT (2 ^ k)) n = (bit w n \<and> n \<noteq> k)"
  using bit_unset_word [of n w k] by simp

lemma test_set_uint_n:
  fixes v :: "'a::len storage_type"
  assumes "set_uint_n v pos = Some s" and "q div LENGTH('a) < length v"
  shows "test s q = Some (q = pos \<or> bit (v ! (length v - q div LENGTH('a) - 1)) (q mod LENGTH('a)))"
proof -
  let ?S = "LENGTH('a)"
  from assms(1) have p: "pos div ?S < length v"
    and s: "s = v[length v - pos div ?S - 1 :=
                  v ! (length v - pos div ?S - 1) OR push_bit (pos mod ?S) 1]"
    by (auto simp: set_uint_n_eq split: if_splits)
  show ?thesis
  proof (cases "q div ?S = pos div ?S")
    case True
    then have "q = pos \<longleftrightarrow> q mod ?S = pos mod ?S"
      using same_word_other_offset [of q pos ?S] by auto
    then show ?thesis using True p assms(2)
      by (auto simp add: test_bit s bit_set_word_exp)
  next
    case False
    then have "length v - q div ?S - 1 \<noteq> length v - pos div ?S - 1"
      using p assms(2) by linarith
    moreover have "q \<noteq> pos" using False by auto
    ultimately show ?thesis using assms(2) by (simp add: test_bit s)
  qed
qed

lemma test_unset:
  fixes v :: "'a::len storage_type"
  assumes "unset v pos = Some u" and "q div LENGTH('a) < length v"
  shows "test u q = Some (q \<noteq> pos \<and> bit (v ! (length v - q div LENGTH('a) - 1)) (q mod LENGTH('a)))"
proof -
  let ?S = "LENGTH('a)"
  from assms(1) have p: "pos div ?S < length v"
    and u: "u = v[length v - pos div ?S - 1 :=
                  v ! (length v - pos div ?S - 1) AND NOT (push_bit (pos mod ?S) 1)]"
    by (auto simp: unset_eq split: if_splits)
  show ?thesis
  proof (cases "q div ?S = pos div ?S")
    case True
    then have "q = pos \<longleftrightarrow> q mod ?S = pos mod ?S"
      using same_word_other_offset [of q pos ?S] by auto
    then show ?thesis using True p assms(2)
      by (auto simp add: test_bit u bit_unset_word_exp)
  next
    case False
    then have "length v - q div ?S - 1 \<noteq> length v - pos div ?S - 1"
      using p assms(2) by linarith
    moreover have "q \<noteq> pos" using False by auto
    ultimately show ?thesis using assms(2) by (simp add: test_bit u)
  qed
qed

lemma set_then_unset:
  fixes v :: "'a::len storage_type"
  assumes "set_uint_n v pos = Some s"
  shows "unset s pos = unset v pos"
proof -
  let ?S = "LENGTH('a)"
  let ?i = "length v - pos div ?S - 1"
  from assms have p: "pos div ?S < length v"
    and s: "s = v[?i := v ! ?i OR push_bit (pos mod ?S) 1]"
    by (auto simp: set_uint_n_eq split: if_splits)
  have i: "?i < length v" using p by linarith
  have "(v ! ?i OR push_bit (pos mod ?S) 1) AND NOT (push_bit (pos mod ?S) 1)
      = v ! ?i AND NOT (push_bit (pos mod ?S) 1)"
    by (rule bit_word_eqI) (auto simp add: bit_simps)
  then show ?thesis using p i by (simp add: unset_eq s)
qed

lemma unset_clear_bit:
  fixes v :: "'a::len storage_type"
  assumes "test v pos = Some False"
  shows "unset v pos = Some v"
proof -
  let ?S = "LENGTH('a)"
  let ?i = "length v - pos div ?S - 1"
  from assms have p: "pos div ?S < length v" and b: "\<not> bit (v ! ?i) (pos mod ?S)"
    by (auto simp: test_bit split: if_splits)
  have "v ! ?i AND NOT (push_bit (pos mod ?S) 1) = v ! ?i"
    using b by (intro bit_word_eqI) (auto simp add: bit_simps)
  then show ?thesis using p by (simp add: unset_eq)
qed

text \<open>
  Claim C8, as amended.  For a value of the instantiation's length and \<open>pos < N\<close>:
  after \<open>set(pos)\<close>, \<open>test(pos)\<close> is true and every other position below \<open>N\<close> tests as
  before; after \<open>unset(pos)\<close>, \<open>test(pos)\<close> is false and every other position tests as
  before; \<open>set(pos)\<close> followed by \<open>unset(pos)\<close> gives the value that \<open>unset(pos)\<close>
  alone gives, in which bit \<open>pos\<close> is clear, and that is the original value if bit
  \<open>pos\<close> was clear originally.
\<close>

theorem set_unset_test_frame:
  fixes v :: "'a::len storage_type"
  assumes "length v = word_count N LENGTH('a)" and "pos < N"
  shows "\<exists>s u. set_uint_n v pos = Some s \<and> unset v pos = Some u
         \<and> test s pos = Some True \<and> (\<forall>q<N. q \<noteq> pos \<longrightarrow> test s q = test v q)
         \<and> test u pos = Some False \<and> (\<forall>q<N. q \<noteq> pos \<longrightarrow> test u q = test v q)
         \<and> unset s pos = Some u
         \<and> (test v pos = Some False \<longrightarrow> u = v)"
proof -
  let ?S = "LENGTH('a)"
  have rng: "q div ?S < length v" if "q < N" for q
    using that index_in_range [of q N ?S] assms(1) by simp
  obtain s where s: "set_uint_n v pos = Some s"
    using rng [OF assms(2)] by (simp add: set_uint_n_eq)
  obtain u where u: "unset v pos = Some u"
    using rng [OF assms(2)] by (simp add: unset_eq)
  have "test s pos = Some True"
    using test_set_uint_n [OF s rng [OF assms(2)]] by simp
  moreover have "test s q = test v q" if "q < N" "q \<noteq> pos" for q
    using test_set_uint_n [OF s rng [OF that(1)]] that rng [OF that(1)] by (simp add: test_bit)
  moreover have "test u pos = Some False"
    using test_unset [OF u rng [OF assms(2)]] by simp
  moreover have "test u q = test v q" if "q < N" "q \<noteq> pos" for q
    using test_unset [OF u rng [OF that(1)]] that rng [OF that(1)] by (simp add: test_bit)
  moreover have "unset s pos = Some u"
    using set_then_unset [OF s] u by simp
  moreover have "u = v" if "test v pos = Some False"
    using unset_clear_bit [OF that] u by simp
  ultimately show ?thesis using s u by blast
qed

theorem set_unset_test_frame_witness:
  "length [5, 144 :: 8 word] = word_count 11 LENGTH(8) \<and> (9::nat) < 11
   \<and> set_uint_n [5, 144 :: 8 word] 9 = Some [7, 144]
   \<and> unset [7, 144 :: 8 word] 9 = Some [5, 144]
   \<and> test [7, 144 :: 8 word] 9 = Some True \<and> test [7, 144 :: 8 word] 10 = test [5, 144 :: 8 word] 10"
  using set_unset_test_frame [of "[5, 144 :: 8 word]" 11 9]
  by (simp add: word_count_def set_uint_n_eq unset_eq test_bit)

text \<open>
  The claim as stated fails where bit \<open>pos\<close> is set originally: on
  \<open>uint_n<1, uint8_t>(1)\<close>, \<open>set(0)\<close> then \<open>unset(0)\<close> leaves bit 0 clear.
\<close>

theorem set_unset_restores_counterexample:
  "length [1 :: 8 word] = word_count 1 LENGTH(8) \<and> (0::nat) < 1
   \<and> test [1 :: 8 word] 0 = Some True
   \<and> set_uint_n [1 :: 8 word] 0 = Some [1]
   \<and> unset [1 :: 8 word] 0 = Some [0]
   \<and> test [0 :: 8 word] 0 = Some False"
  by (simp add: word_count_def set_uint_n_eq unset_eq test_bit)

section \<open>Bitwise and\<close>

lemma and_fold_length:
  "length (fold (\<lambda>i b. b[i := b ! i AND rhs ! i]) [0..<n] bits) = length bits"
  by (induction n) simp_all

lemma and_fold_nth:
  fixes bits :: "'a::len storage_type"
  assumes "n \<le> length bits" "j < length bits"
  shows "fold (\<lambda>i b. b[i := b ! i AND rhs ! i]) [0..<n] bits ! j
       = (if j < n then bits ! j AND rhs ! j else bits ! j)"
  using assms
proof (induction n)
  case 0
  then show ?case by simp
next
  case (Suc n)
  then show ?case
    by (cases "j = n") (simp_all add: and_fold_length)
qed

lemma and_assign_length: "length (and_assign x y) = length x"
  by (simp add: and_assign_def and_fold_length)

lemma and_assign_nth: "i < length x \<Longrightarrow> and_assign x y ! i = x ! i AND y ! i"
  by (simp add: and_assign_def and_fold_nth)

text \<open>
  Claim C9.  For \<open>x\<close> and \<open>y\<close> of one instantiation (the same number of words):
  \<open>x & y\<close> equals \<open>y & x\<close> (hence on every stored word), the mutating form agrees
  with the pure one, word \<open>i\<close> of the result is the bitwise and of word \<open>i\<close> of \<open>x\<close> and
  word \<open>i\<close> of \<open>y\<close> and depends on no other word, and for every \<open>pos < N\<close>
  \<open>test(pos)\<close> of the result is the conjunction of \<open>test(pos)\<close> of \<open>x\<close> and of \<open>y\<close>.
\<close>

theorem and_wordwise_commutative:
  fixes x y :: "'a::len storage_type"
  assumes "length x = word_count N LENGTH('a)" and "length y = word_count N LENGTH('a)"
  shows "and_op x y = and_op y x
       \<and> and_assign x y = and_op x y
       \<and> length (and_op x y) = length x
       \<and> (\<forall>i<length x. and_op x y ! i = x ! i AND y ! i)
       \<and> (\<forall>pos<N. \<exists>a b. test x pos = Some a \<and> test y pos = Some b
                        \<and> test (and_op x y) pos = Some (a \<and> b))"
proof -
  let ?S = "LENGTH('a)"
  have len: "length x = length y" using assms by simp
  have comm: "and_assign x y = and_assign y x"
    by (rule nth_equalityI) (simp_all add: and_assign_length and_assign_nth len and.commute)
  have nth: "\<forall>i<length x. and_assign x y ! i = x ! i AND y ! i"
    by (simp add: and_assign_nth)
  have tst: "\<exists>a b. test x pos = Some a \<and> test y pos = Some b
                  \<and> test (and_assign x y) pos = Some (a \<and> b)" if "pos < N" for pos
  proof -
    have "pos div ?S < length x"
      using that index_in_range [of pos N ?S] assms(1) by simp
    then show ?thesis
      using len by (simp add: test_bit and_assign_length and_assign_nth bit_and_iff)
  qed
  show ?thesis
    unfolding and_op_def using comm nth tst and_assign_length [of x y] by blast
qed

theorem and_wordwise_commutative_witness:
  "length [2, 7 :: 8 word] = word_count 10 LENGTH(8)
   \<and> length [3, 5 :: 8 word] = word_count 10 LENGTH(8)
   \<and> and_op [2, 7 :: 8 word] [3, 5] = and_op [3, 5] [2, 7]
   \<and> length (and_op [2, 7 :: 8 word] [3, 5]) = length [2, 7 :: 8 word]"
proof -
  have x: "length [2, 7 :: 8 word] = word_count 10 LENGTH(8)"
    and y: "length [3, 5 :: 8 word] = word_count 10 LENGTH(8)"
    by (simp_all add: word_count_def)
  from and_wordwise_commutative [OF x y] x y show ?thesis by blast
qed

section \<open>Population count of zero words, and the zero value\<close>

lemma builtin_popcount_zero: "builtin_popcount 0 = 0"
  by (simp add: builtin_popcount_def)

lemma popcount_fold_zero:
  assumes "\<forall>i\<in>set is. x ! i = 0"
  shows "fold (\<lambda>i ret. ret + builtin_popcount (ucast (x ! i))) is r = r"
  using assms by (induction "is" arbitrary: r) (simp_all add: builtin_popcount_zero)

lemma popcount_all_zero:
  fixes x :: "'a::len storage_type"
  assumes "\<forall>i<length x. x ! i = 0" "0 < length x"
  shows "popcount N x = 0"
proof -
  have "x ! 0 = 0" using assms by simp
  moreover have "\<forall>i\<in>set [1..<length x]. x ! i = 0" using assms by simp
  ultimately show ?thesis
    by (simp add: popcount_def Let_def popcount_fold_zero builtin_popcount_zero)
qed

text \<open>
  Claim C5, as amended.  A value-initialized \<open>uint_n<N, Word>\<close> (\<open>uint_n<N>()\<close> or
  \<open>uint_n<N> x{}\<close>) has \<open>W\<close> stored words, all zero, so \<open>test(pos)\<close> is false for every
  \<open>pos < N\<close> and \<open>popcount\<close> is 0.
\<close>

theorem value_init_all_zero:
  fixes z :: "'a::len storage_type"
  assumes "z = uint_n_value_init N" and "0 < N"
  shows "length z = word_count N LENGTH('a)
       \<and> (\<forall>i<length z. z ! i = 0)
       \<and> (\<forall>pos<N. test z pos = Some False)
       \<and> popcount N z = 0"
proof -
  let ?S = "LENGTH('a)"
  have len: "length z = word_count N ?S" and zero: "\<forall>i<length z. z ! i = 0"
    using assms(1) by (simp_all add: uint_n_value_init_def)
  have "test z pos = Some False" if "pos < N" for pos
  proof -
    have "pos div ?S < length z"
      using that index_in_range [of pos N ?S] len by simp
    then show ?thesis using zero by (simp add: test_bit)
  qed
  moreover have "0 < length z"
    using index_in_range [of 0 N ?S] assms(2) len by simp
  then have "popcount N z = 0" using zero by (intro popcount_all_zero) simp_all
  ultimately show ?thesis using len zero by simp
qed

theorem value_init_all_zero_witness:
  "[0, 0 :: 8 word] = uint_n_value_init 11 \<and> (0::nat) < 11
   \<and> test [0, 0 :: 8 word] 10 = Some False \<and> popcount 11 [0, 0 :: 8 word] = 0"
  using value_init_all_zero [of "[0, 0 :: 8 word]" 11]
  by (simp add: uint_n_value_init_def word_count_def numeral_2_eq_2)

text \<open>
  The claim as stated speaks of a default-constructed value.  Default-initialization
  (\<open>uint_n<1, uint8_t> x;\<close>) runs the defaulted constructor only, which writes nothing
  to \<open>bits\<close>: the array with bit 0 set is one of its outcomes.
\<close>

theorem default_init_counterexample:
  "uint_n_default_init 1 [1 :: 8 word] \<and> [1 :: 8 word] ! 0 \<noteq> 0
   \<and> test [1 :: 8 word] 0 = Some True \<and> popcount 1 [1 :: 8 word] = 1"
  by code_simp

section \<open>Left shift\<close>

lemma shift_amount_promoted: "pos mod LENGTH('a::len) < promoted_width LENGTH('a)"
proof -
  have less: "pos mod LENGTH('a) < LENGTH('a)" by simp
  show ?thesis
  proof (cases "LENGTH('a) < 32")
    case True
    with less have "pos mod LENGTH('a) < 32" by linarith
    with True show ?thesis by (simp add: promoted_width_def)
  next
    case False
    then show ?thesis by (simp add: promoted_width_def)
  qed
qed

lemma shl_loop_step:
  fixes bits :: "'a::len storage_type"
  assumes "i < length bits" and "shl_defined pos bits"
  shows "shl_loop pos i bits = shl_loop pos (i + 1) (bits[i := shl_result pos bits i])"
proof -
  let ?S = "LENGTH('a)"
  have "?S - pos mod ?S < promoted_width ?S" if "i + (pos div ?S + 1) < length bits"
    using that assms(2) by (auto simp add: promoted_width_def shl_defined_def)
  then show ?thesis
    using assms(1) shift_amount_promoted [of pos, where 'a='a]
    by (subst shl_loop.simps) (simp add: Let_def shl_word_def shr_word_def shl_result_def)
qed

lemma shl_loop_undefined:
  fixes bits :: "'a::len storage_type"
  assumes "i + pos div LENGTH('a) + 1 < length bits" and "pos mod LENGTH('a) = 0"
    and "32 \<le> LENGTH('a)"
  shows "shl_loop pos i bits = None"
  using assms
  by (subst shl_loop.simps) (simp add: Let_def shl_word_def shr_word_def promoted_width_def)

lemma shl_result_update:
  assumes "i < j"
  shows "shl_result pos (bits[i := w]) j = shl_result pos bits j"
  using assms by (simp add: shl_result_def Let_def)

lemma shl_defined_update: "shl_defined pos (bits[i := w]) = shl_defined pos bits"
  by (simp add: shl_defined_def)

lemma shl_loop_result:
  fixes bits :: "'a::len storage_type"
  assumes "shl_defined pos bits"
  shows "\<exists>r. shl_loop pos i bits = Some r \<and> length r = length bits
           \<and> (\<forall>j<length bits. r ! j = (if j < i then bits ! j else shl_result pos bits j))"
  using assms
proof (induction "length bits - i" arbitrary: i bits)
  case 0
  then have "length bits \<le> i" by simp
  then show ?case by (subst shl_loop.simps) simp
next
  case (Suc n)
  then have i: "i < length bits" by linarith
  let ?b = "bits[i := shl_result pos bits i]"
  have "n = length ?b - (i + 1)" using Suc.hyps(2) by simp
  moreover have "shl_defined pos ?b" using Suc.prems by (simp add: shl_defined_update)
  ultimately obtain r where r: "shl_loop pos (i + 1) ?b = Some r" "length r = length ?b"
    "\<forall>j<length ?b. r ! j = (if j < i + 1 then ?b ! j else shl_result pos ?b j)"
    using Suc.hyps(1) [of ?b "i + 1"] by blast
  have "r ! j = (if j < i then bits ! j else shl_result pos bits j)" if "j < length bits" for j
  proof -
    consider "j < i" | "j = i" | "i < j" by linarith
    then show ?thesis
    proof cases
      case 1
      then show ?thesis using r(3) that by simp
    next
      case 2
      then show ?thesis using r(3) that by simp
    next
      case 3
      then show ?thesis using r(3) that by (simp add: shl_result_update)
    qed
  qed
  then show ?case using r shl_loop_step [OF i Suc.prems] by simp
qed

lemma div_mod_split:
  assumes "y < (S::nat)"
  shows "(x * S + y) div S = x" and "(x * S + y) mod S = y"
  using assms by simp_all

lemma shl_result_bit:
  fixes bits :: "'a::len storage_type"
  assumes j: "j < length bits" and b: "b < LENGTH('a)"
    and p: "p = (length bits - 1 - j) * LENGTH('a) + b"
  shows "bit (shl_result pos bits j) b
       = (pos \<le> p \<and> bit (bits ! (length bits - 1 - (p - pos) div LENGTH('a)))
                         ((p - pos) mod LENGTH('a)))"
proof -
  let ?S = "LENGTH('a)"
  define u where "u = pos div ?S"
  define s where "s = pos mod ?S"
  define a where "a = length bits - 1 - j"
  have pos: "pos = u * ?S + s" and s: "s < ?S" by (simp_all add: u_def s_def)
  have W: "length bits = j + a + 1" using j by (simp add: a_def)
  have p': "p = a * ?S + b" using p by (simp add: a_def)
  show ?thesis
  proof (cases "j + u < length bits")
    case False
    then have "a + 1 \<le> u" using W by linarith
    then have "(a + 1) * ?S \<le> u * ?S" by (rule mult_le_mono1)
    then have "p < pos" using p' pos b by simp
    moreover have "shl_result pos bits j = 0"
      using False by (simp add: shl_result_def u_def Let_def)
    ultimately show ?thesis by simp
  next
    case True
    then have "u \<le> a" using W by linarith
    then obtain d where d: "a = u + d" using le_Suc_ex by blast
    have res: "shl_result pos bits j
             = push_bit s (bits ! (j + u))
               OR (if j + u + 1 < length bits then drop_bit (?S - s) (bits ! (j + u + 1)) else 0)"
      using True by (simp add: shl_result_def u_def s_def Let_def)
    show ?thesis
    proof (cases "s \<le> b")
      case le: True
      then obtain e where e: "b = s + e" using le_Suc_ex by blast
      have "p = pos + (d * ?S + e)" using p' pos d e by (simp add: algebra_simps)
      then have le_p: "pos \<le> p" and diff: "p - pos = d * ?S + e" by simp_all
      have e_less: "e < ?S" using b e by simp
      have dv: "(p - pos) div ?S = d" and md: "(p - pos) mod ?S = e"
        using div_mod_split [OF e_less, of d] diff by simp_all
      have idx: "length bits - 1 - d = j + u" using W d by simp
      have "\<not> bit (bits ! (j + u + 1)) (?S - s + b)"
        using le s by (auto dest!: bit_imp_le_length)
      then have "bit (shl_result pos bits j) b = bit (bits ! (j + u)) (b - s)"
        using le b by (auto simp add: res bit_or_iff bit_push_bit_iff bit_drop_bit_eq)
      then show ?thesis using le_p dv md idx e by simp
    next
      case less: False
      then have push: "\<not> bit (push_bit s (bits ! (j + u))) b"
        by (simp add: bit_push_bit_iff)
      show ?thesis
      proof (cases "d = 0")
        case True
        then have "p < pos" using p' pos d less by simp
        moreover have "\<not> j + u + 1 < length bits" using W d True by simp
        ultimately show ?thesis using push by (simp add: res bit_or_iff)
      next
        case False
        then obtain d' where d': "d = d' + 1" by (cases d) auto
        define e where "e = ?S - s + b"
        have e_less: "e < ?S" using less s b by (simp add: e_def)
        have "p = pos + (d' * ?S + e)"
          using p' pos d d' s less by (simp add: algebra_simps e_def)
        then have le_p: "pos \<le> p" and diff: "p - pos = d' * ?S + e" by simp_all
        have dv: "(p - pos) div ?S = d'" and md: "(p - pos) mod ?S = e"
          using div_mod_split [OF e_less, of d'] diff by simp_all
        have idx: "length bits - 1 - d' = j + u + 1" and rng: "j + u + 1 < length bits"
          using W d d' by simp_all
        have "bit (shl_result pos bits j) b = bit (bits ! (j + u + 1)) e"
          using push rng by (simp add: res bit_or_iff bit_drop_bit_eq e_def)
        then show ?thesis using le_p dv md idx by simp
      qed
    qed
  qed
qed

lemma shl_assign_words:
  fixes v :: "'a::len storage_type"
  assumes "shl_defined pos v"
  shows "\<exists>r. shl_assign v pos = Some r \<and> shl v pos = Some r \<and> length r = length v
           \<and> (\<forall>j<length v. r ! j = shl_result pos v j)"
  using shl_loop_result [OF assms, of 0] by (auto simp add: shl_assign_def shl_def)

lemma shl_assign_undefined:
  fixes v :: "'a::len storage_type"
  assumes "32 \<le> LENGTH('a)" and "pos mod LENGTH('a) = 0" and "pos div LENGTH('a) + 1 < length v"
  shows "shl_assign v pos = None" and "shl v pos = None"
  using shl_loop_undefined [of 0 pos v] assms by (simp_all add: shl_assign_def shl_def)

text \<open>
  Where the shift is defined, bit \<open>q\<close> of the result is bit \<open>q - pos\<close> of the original
  for \<open>q \<ge> pos\<close> and zero below.
\<close>

lemma shl_assign_test:
  fixes v :: "'a::len storage_type"
  assumes len: "length v = word_count N LENGTH('a)" and def: "shl_defined pos v"
  shows "\<exists>r. shl_assign v pos = Some r \<and> shl v pos = Some r \<and> length r = length v
           \<and> (\<forall>q<N. test r q = Some (pos \<le> q \<and> test v (q - pos) = Some True))"
proof -
  let ?S = "LENGTH('a)"
  from shl_assign_words [OF def] obtain r where r: "shl_assign v pos = Some r"
    "shl v pos = Some r" "length r = length v" "\<forall>j<length v. r ! j = shl_result pos v j"
    by blast
  have "test r q = Some (pos \<le> q \<and> test v (q - pos) = Some True)" if "q < N" for q
  proof -
    have q: "q div ?S < length v" using that index_in_range [of q N ?S] len by simp
    have qp: "(q - pos) div ?S < length v"
      using q div_le_mono [of "q - pos" q ?S] by simp
    let ?j = "length v - q div ?S - 1"
    have j: "?j < length v" using q by linarith
    have "length v - 1 - ?j = q div ?S" using q by linarith
    then have p: "q = (length v - 1 - ?j) * ?S + q mod ?S" by simp
    have "bit (shl_result pos v ?j) (q mod ?S)
        = (pos \<le> q \<and> bit (v ! (length v - 1 - (q - pos) div ?S)) ((q - pos) mod ?S))"
      by (rule shl_result_bit [OF j _ p]) simp
    then show ?thesis using q qp j r(3,4) by (simp add: test_bit)
  qed
  then show ?thesis using r by blast
qed

lemma shl_zero_identity:
  fixes v :: "'a::len storage_type"
  assumes "shl_defined 0 v"
  shows "shl_assign v 0 = Some v" and "shl v 0 = Some v"
proof -
  from shl_assign_words [OF assms] obtain r where r: "shl_assign v 0 = Some r"
    "shl v 0 = Some r" "length r = length v" "\<forall>j<length v. r ! j = shl_result 0 v j"
    by blast
  have "r = v"
    by (rule nth_equalityI) (simp_all add: r(3,4) shl_result_def)
  then show "shl_assign v 0 = Some v" and "shl v 0 = Some v" using r by simp_all
qed

lemma shl_defined_narrow:
  fixes v :: "'a::len storage_type"
  assumes "LENGTH('a) < 32"
  shows "shl_defined pos v"
  using assms by (simp add: shl_defined_def)

lemma shl_defined_beyond:
  fixes v :: "'a::len storage_type"
  assumes "length v = word_count N LENGTH('a)" and "0 < N" and "N \<le> pos"
  shows "length v \<le> pos div LENGTH('a) + 1"
proof -
  let ?S = "LENGTH('a)"
  have "(length v - 1) * ?S \<le> pos"
    using word_count_first(2) [of ?S N] assms by simp
  then have "length v - 1 \<le> pos div ?S"
    by (metis div_le_mono div_mult_self_is_m len_gt_0)
  then show ?thesis by linarith
qed

text \<open>
  Claim C7.  For a value of the instantiation's length and \<open>pos \<ge> N\<close>, both the
  mutating and the pure shift return a result (no undefined shift is reached for any
  word type), every position \<open>q < N\<close> of it tests as 0, and its \<open>popcount\<close> is 0.
\<close>

theorem shl_beyond_width_zero:
  fixes v :: "'a::len storage_type"
  assumes len: "length v = word_count N LENGTH('a)" and N: "0 < N" and pos: "N \<le> pos"
  shows "\<exists>r. shl_assign v pos = Some r \<and> shl v pos = Some r
           \<and> (\<forall>q<N. test r q = Some False) \<and> popcount N r = 0"
proof -
  let ?S = "LENGTH('a)"
  let ?f = "first_bits N ?S"
  have def: "shl_defined pos v"
    using shl_defined_beyond [OF len N pos] by (simp add: shl_defined_def)
  from shl_assign_words [OF def] obtain r where r: "shl_assign v pos = Some r"
    "shl v pos = Some r" "length r = length v" "\<forall>j<length v. r ! j = shl_result pos v j"
    by blast
  from shl_assign_test [OF len def] r(1)
  have tst: "\<forall>q<N. test r q = Some False" using pos by auto
  have W: "0 < length v" and Nsplit: "N = (length v - 1) * ?S + ?f"
    using word_count_first [of ?S N] N len by simp_all
  have rest: "r ! j = 0" if "j \<in> set [1..<length r]" for j
  proof -
    have "\<not> j + pos div ?S < length v"
      using that shl_defined_beyond [OF len N pos] by simp
    then show ?thesis using that r(3,4) by (simp add: shl_result_def)
  qed
  have top: "take_bit ?f (r ! 0) = 0"
  proof (rule bit_word_eqI)
    fix b assume b: "b < ?S"
    have "\<not> bit (r ! 0) b" if "b < ?f"
    proof -
      have "(length v - 1 - 0) * ?S + b < pos" using that Nsplit pos by simp
      then show ?thesis
        using shl_result_bit [OF W b refl, of pos] r(4) W by simp
    qed
    then show "bit (take_bit ?f (r ! 0)) b = bit (0 :: 'a word) b"
      by (auto simp add: bit_take_bit_iff)
  qed
  have "(push_bit ?f 1 - 1) AND r ! 0 = take_bit ?f (r ! 0)"
    by (simp add: take_bit_eq_mask mask_eq_exp_minus_1 and.commute)
  then have "popcount N r = 0"
    using top rest
    by (simp add: popcount_def Let_def popcount_fold_zero builtin_popcount_zero)
  then show ?thesis using r tst by blast
qed

theorem shl_beyond_width_zero_witness:
  "length [3, 255 :: 8 word] = word_count 10 LENGTH(8) \<and> (0::nat) < 10 \<and> (10::nat) \<le> 10
   \<and> (\<exists>r. shl_assign [3, 255 :: 8 word] 10 = Some r \<and> popcount 10 r = 0)"
proof -
  have len: "length [3, 255 :: 8 word] = word_count 10 LENGTH(8)"
    by (simp add: word_count_def)
  from shl_beyond_width_zero [OF len, of 10] len show ?thesis by auto
qed

section \<open>Pre-decrement\<close>

lemma val_be_bounds:
  fixes bits :: "'a::len storage_type"
  shows "0 \<le> val_be bits \<and> val_be bits < 2 ^ (LENGTH('a) * length bits)"
proof (induction bits)
  case Nil
  show ?case by simp
next
  case (Cons w ws)
  let ?m = "LENGTH('a) * length ws"
  have "uint w \<le> 2 ^ LENGTH('a) - 1" using uint_lt2p [of w] by simp
  then have "uint w * 2 ^ ?m \<le> (2 ^ LENGTH('a) - 1) * 2 ^ ?m"
    by (rule mult_right_mono) simp
  also have "\<dots> = 2 ^ (LENGTH('a) * length (w # ws)) - 2 ^ ?m"
    by (simp add: algebra_simps power_add)
  finally show ?case using Cons by simp
qed

lemma val_be_concat:
  fixes ws :: "'a::len storage_type"
  shows "val_be (w # ws) = concat_bit (LENGTH('a) * length ws) (val_be ws) (uint w)"
proof -
  have "take_bit (LENGTH('a) * length ws) (val_be ws) = val_be ws"
    using val_be_bounds [of ws] by (simp add: take_bit_int_eq_self)
  then show ?thesis by (simp add: concat_bit_eq push_bit_eq_mult)
qed

lemma test_val_be:
  fixes bits :: "'a::len storage_type"
  assumes "q div LENGTH('a) < length bits"
  shows "test bits q = Some (bit (val_be bits) q)"
  using assms
proof (induction bits)
  case Nil
  then show ?case by simp
next
  case (Cons w ws)
  let ?S = "LENGTH('a)"
  show ?case
  proof (cases "q div ?S < length ws")
    case True
    then have "q < ?S * length ws"
      by (metis div_less_iff_less_mult len_gt_0 mult.commute)
    moreover have "test (w # ws) q = test ws q"
      using True by (simp add: test_bit Suc_diff_Suc)
    ultimately show ?thesis
      using Cons.IH [OF True] by (simp add: val_be_concat bit_concat_bit_iff del: val_be.simps)
  next
    case False
    then have eq: "q div ?S = length ws" using Cons.prems by simp
    then have "q = ?S * length ws + q mod ?S"
      by (metis mult_div_mod_eq)
    then have "?S * length ws \<le> q" and "q - ?S * length ws = q mod ?S" by linarith+
    then show ?thesis
      using eq by (simp add: test_bit val_be_concat bit_concat_bit_iff bit_uint_iff del: val_be.simps)
  qed
qed

lemma logical_value_val_be:
  fixes bits :: "'a::len storage_type"
  assumes "length bits = word_count N LENGTH('a)"
  shows "logical_value N bits = take_bit N (val_be bits)"
proof -
  have "test bits q = Some (bit (val_be bits) q)" if "q < N" for q
    using that index_in_range [of q N "LENGTH('a)"] assms by (simp add: test_val_be)
  then have "logical_value N bits
           = (\<Sum>q\<leftarrow>[0..<N]. if bit (val_be bits) q then 2 ^ q else 0)"
    unfolding logical_value_def by (intro arg_cong [where f = sum_list] map_cong) simp_all
  also have "\<dots> = (\<Sum>q = 0..<N. push_bit q (of_bool (bit (val_be bits) q)))"
    by (simp add: interv_sum_list_conv_sum_set_nat push_bit_eq_mult of_bool_def if_distrib cong: if_cong)
  also have "\<dots> = take_bit N (val_be bits)"
    by (simp add: take_bit_sum)
  finally show ?thesis .
qed

lemma dec_loop_length: "length (dec_loop n bits) = length bits"
  by (induction n arbitrary: bits) simp_all

text \<open>
  The borrow reaches word \<open>j\<close> exactly if every less significant word is zero; a
  word the borrow reaches is decremented (a zero word wraps to the maximum, \<open>0 - 1\<close>),
  every other word is left alone.
\<close>

lemma dec_loop_nth:
  fixes bits :: "'a::len storage_type"
  assumes "n \<le> length bits" and "j < length bits"
  shows "dec_loop n bits ! j
       = (if j < n \<and> (\<forall>k. j < k \<and> k < n \<longrightarrow> bits ! k = 0) then bits ! j - 1 else bits ! j)"
  using assms
proof (induction n arbitrary: bits)
  case 0
  then show ?case by simp
next
  case (Suc i)
  show ?case
  proof (cases "bits ! i = 0")
    case False
    consider "j < i" | "j = i" | "i < j" by linarith
    then show ?thesis
    proof cases
      case 1
      then have "\<not> (\<forall>k. j < k \<and> k < Suc i \<longrightarrow> bits ! k = 0)" using False by auto
      then show ?thesis using False 1 by simp
    next
      case 2
      then show ?thesis using False Suc.prems by simp
    next
      case 3
      then show ?thesis using False by simp
    qed
  next
    case True
    let ?b = "bits[i := bits ! i - 1]"
    have IH: "dec_loop i ?b ! j
            = (if j < i \<and> (\<forall>k. j < k \<and> k < i \<longrightarrow> ?b ! k = 0) then ?b ! j - 1 else ?b ! j)"
      using Suc.IH [of ?b] Suc.prems by simp
    consider "j < i" | "j = i" | "i < j" by linarith
    then show ?thesis
    proof cases
      case 1
      have "(\<forall>k. j < k \<and> k < Suc i \<longrightarrow> bits ! k = 0) \<longleftrightarrow> (\<forall>k. j < k \<and> k < i \<longrightarrow> ?b ! k = 0)"
        using True less_Suc_eq by auto
      then show ?thesis using True 1 IH by simp
    next
      case 2
      then show ?thesis using True IH Suc.prems by simp
    next
      case 3
      then show ?thesis using True IH by simp
    qed
  qed
qed

lemma val_be_update:
  fixes bits :: "'a::len storage_type"
  assumes "i < length bits"
  shows "val_be (bits[i := w])
       = val_be bits + (uint w - uint (bits ! i)) * 2 ^ (LENGTH('a) * (length bits - 1 - i))"
  using assms
proof (induction bits arbitrary: i)
  case Nil
  then show ?case by simp
next
  case (Cons x xs)
  show ?case
  proof (cases i)
    case 0
    then show ?thesis by (simp add: algebra_simps)
  next
    case (Suc i')
    then show ?thesis using Cons.IH [of i'] Cons.prems by simp
  qed
qed

lemma uint_minus_one:
  fixes w :: "'a::len word"
  shows "uint (w - 1) = (if w = 0 then 2 ^ LENGTH('a) - 1 else uint w - 1)"
proof (cases "w = 0")
  case True
  then show ?thesis by (simp add: unsigned_minus_1_eq_mask mask_eq_exp_minus_1)
next
  case False
  then have "uint w \<noteq> 0" by (simp add: uint_0_iff)
  moreover have "0 \<le> uint w" by simp
  ultimately have "1 \<le> uint w" by linarith
  then have "uint (1 :: 'a word) \<le> uint w" by simp
  then have "uint (w - 1) = uint w - uint (1 :: 'a word)" by (simp only: uint_sub_if' if_True)
  then show ?thesis using False by simp
qed

lemma val_be_decrement_word:
  fixes bits :: "'a::len storage_type"
  assumes "i < length bits"
  shows "bits ! i = 0 \<Longrightarrow> val_be (bits[i := bits ! i - 1])
           = val_be bits + (2 ^ LENGTH('a) - 1) * 2 ^ (LENGTH('a) * (length bits - Suc i))"
    and "bits ! i \<noteq> 0 \<Longrightarrow> val_be (bits[i := bits ! i - 1])
           = val_be bits + (- 1) * 2 ^ (LENGTH('a) * (length bits - Suc i))"
  using val_be_update [OF assms, of "bits ! i - 1"]
  by (simp_all add: uint_minus_one unsigned_minus_1_eq_mask mask_eq_exp_minus_1)

lemma val_be_dec_loop:
  fixes bits :: "'a::len storage_type"
  assumes "n \<le> length bits"
  shows "val_be (dec_loop n bits)
       = val_be bits - 2 ^ (LENGTH('a) * (length bits - n))
         + (if \<forall>k<n. bits ! k = 0 then 2 ^ (LENGTH('a) * length bits) else 0)"
  using assms
proof (induction n arbitrary: bits)
  case 0
  then show ?case by simp
next
  case (Suc i)
  let ?S = "LENGTH('a)"
  let ?W = "length bits"
  let ?b = "bits[i := bits ! i - 1]"
  have i: "i < ?W" using Suc.prems by simp
  define A :: int where "A = 2 ^ (?S * (?W - Suc i))"
  define T :: int where "T = (if \<forall>k<Suc i. bits ! k = 0 then 2 ^ (?S * ?W) else 0)"
  show ?case
  proof (cases "bits ! i = 0")
    case False
    then have "\<not> (\<forall>k<Suc i. bits ! k = 0)" by auto
    then have "T = 0" by (simp add: T_def)
    moreover have "val_be ?b = val_be bits + (- 1) * A"
      unfolding A_def using i False by (rule val_be_decrement_word(2))
    moreover have "dec_loop (Suc i) bits = ?b" using False by simp
    ultimately have "val_be (dec_loop (Suc i) bits) = val_be bits - A + T" by simp
    then show ?thesis by (simp only: A_def T_def)
  next
    case True
    have "?W - i = Suc (?W - Suc i)" using i by simp
    then have "(2::int) ^ (?S * (?W - i)) = 2 ^ (?S + ?S * (?W - Suc i))" by simp
    then have p: "(2::int) ^ (?S * (?W - i)) = 2 ^ ?S * A"
      by (simp only: A_def power_add)
    have upd: "val_be ?b = val_be bits + (2 ^ ?S - 1) * A"
      unfolding A_def using i True by (rule val_be_decrement_word(1))
    have "(\<forall>k<i. ?b ! k = 0) \<longleftrightarrow> (\<forall>k<Suc i. bits ! k = 0)"
      using True less_Suc_eq by auto
    then have t: "(if \<forall>k<i. ?b ! k = 0 then 2 ^ (?S * ?W) else 0) = T"
      by (simp only: T_def)
    have "val_be (dec_loop i ?b)
        = val_be ?b - 2 ^ (?S * (length ?b - i))
          + (if \<forall>k<i. ?b ! k = 0 then 2 ^ (?S * length ?b) else 0)"
      using i by (intro Suc.IH) simp
    then have "val_be (dec_loop i ?b) = val_be ?b - 2 ^ (?S * (?W - i)) + T"
      using t by (simp only: length_list_update)
    then have "val_be (dec_loop i ?b) = val_be bits + (2 ^ ?S - 1) * A - 2 ^ ?S * A + T"
      by (simp only: upd p)
    also have "\<dots> = val_be bits - A + T" by (simp add: algebra_simps)
    finally have "val_be (dec_loop (Suc i) bits) = val_be bits - A + T" using True by simp
    then show ?thesis by (simp only: A_def T_def)
  qed
qed

text \<open>
  Claim C4.  For a value of the instantiation's length: the borrow runs from the last
  word towards index 0; word \<open>j\<close> is decremented exactly if every word after it is
  zero and is unchanged otherwise, and decrementing a zero word gives the maximum of
  the word type.  The logical \<open>N\<close>-bit value after the decrement is the one before
  minus 1 modulo \<open>2 ^ N\<close>, and after decrementing the all-zero value every position
  below \<open>N\<close> tests as 1.
\<close>

theorem pre_decrement_ripple_borrow:
  fixes v :: "'a::len storage_type"
  assumes len: "length v = word_count N LENGTH('a)" and N: "0 < N"
  shows "length (pre_decrement v) = length v
       \<and> (\<forall>j<length v. pre_decrement v ! j
             = (if \<forall>k. j < k \<and> k < length v \<longrightarrow> v ! k = 0 then v ! j - 1 else v ! j))
       \<and> uint ((0 :: 'a word) - 1) = 2 ^ LENGTH('a) - 1
       \<and> logical_value N (pre_decrement v) = (logical_value N v - 1) mod 2 ^ N
       \<and> ((\<forall>j<length v. v ! j = 0) \<longrightarrow> (\<forall>q<N. test (pre_decrement v) q = Some True))"
proof -
  let ?S = "LENGTH('a)"
  let ?r = "pre_decrement v"
  have rlen: "length ?r = length v" by (simp add: pre_decrement_def dec_loop_length)
  have nth: "\<forall>j<length v. ?r ! j
             = (if \<forall>k. j < k \<and> k < length v \<longrightarrow> v ! k = 0 then v ! j - 1 else v ! j)"
    by (simp add: pre_decrement_def dec_loop_nth)
  have wrap: "uint ((0 :: 'a word) - 1) = 2 ^ ?S - 1"
    by (simp add: unsigned_minus_1_eq_mask mask_eq_exp_minus_1)
  have "N \<le> ?S * length v" using word_count_covers [of ?S N] len by (simp add: mult.commute)
  then have dvd: "(2::int) ^ N dvd 2 ^ (?S * length v)" by (rule le_imp_power_dvd)
  define c :: int where "c = (if \<forall>k<length v. v ! k = 0 then 2 ^ (?S * length v) else 0)"
  have "val_be ?r = val_be v - 1 + c"
    unfolding c_def using val_be_dec_loop [of "length v" v] by (simp add: pre_decrement_def)
  moreover have "2 ^ N dvd c" using dvd by (simp add: c_def)
  then obtain d where "c = 2 ^ N * d" by (rule dvdE)
  ultimately have "val_be ?r = val_be v - 1 + 2 ^ N * d" by simp
  then have "val_be ?r mod 2 ^ N = (val_be v - 1) mod 2 ^ N"
    by (simp only: mod_mult_self2)
  then have "logical_value N ?r = (logical_value N v - 1) mod 2 ^ N"
    using len rlen by (simp add: logical_value_val_be take_bit_eq_mod mod_diff_left_eq)
  moreover have "test ?r q = Some True" if zero: "\<forall>j<length v. v ! j = 0" and q: "q < N" for q
  proof -
    have rng: "q div ?S < length v" using q index_in_range [of q N ?S] len by simp
    then have "length v - q div ?S - 1 < length v" by linarith
    then have "?r ! (length v - q div ?S - 1) = - 1" using nth zero by simp
    then show ?thesis using rng rlen by (simp add: test_bit)
  qed
  ultimately show ?thesis using rlen nth wrap by blast
qed

theorem pre_decrement_ripple_borrow_witness:
  "length [0, 0 :: 8 word] = word_count 9 LENGTH(8) \<and> (0::nat) < 9
   \<and> pre_decrement [0, 0 :: 8 word] = [255, 255]
   \<and> logical_value 9 (pre_decrement [0, 0 :: 8 word]) = (logical_value 9 [0, 0 :: 8 word] - 1) mod 2 ^ 9"
proof -
  have len: "length [0, 0 :: 8 word] = word_count 9 LENGTH(8)" by (simp add: word_count_def)
  have "pre_decrement [0, 0 :: 8 word] = [255, 255]" by code_simp
  with pre_decrement_ripple_borrow [OF len] len show ?thesis by simp
qed

section \<open>Shifts by a multiple of the word size on 32- and 64-bit words\<close>

text \<open>
  Claim C2 on the code: \<open>uint_n<128, uint64_t>(0, 1) <<= 0\<close>.  At \<open>i = 0\<close> the loop
  evaluates \<open>bits[1] >> (64 - 0)\<close> on a 64-bit operand, a shift by the full width of
  the type, so the shift by 0 has no defined result; the same holds for \<open>operator<<\<close>.
\<close>

theorem shl_zero_uint64_undefined:
  "length [0, 1 :: 64 word] = word_count 128 LENGTH(64)
   \<and> shl_assign [0, 1 :: 64 word] 0 = None
   \<and> shl [0, 1 :: 64 word] 0 = None"
  by (simp add: word_count_def shl_assign_undefined)

text \<open>
  Claim C3 on the code: \<open>uint_n<192, uint64_t>(0, 0, 1) <<= 64\<close>, with
  \<open>pos = 64 < N = 192\<close>.  Here \<open>upper = 1\<close> and \<open>shift = 0\<close>; at \<open>i = 0\<close> the loop
  evaluates \<open>bits[2] >> 64\<close>, which is undefined, so no bit of the result is determined.
\<close>

theorem shl_word_multiple_uint64_undefined:
  "length [0, 0, 1 :: 64 word] = word_count 192 LENGTH(64) \<and> (64::nat) < 192
   \<and> shl_assign [0, 0, 1 :: 64 word] 64 = None"
  by (simp add: word_count_def shl_assign_undefined)

section \<open>Population count against the positions that test as 1\<close>

lemma filter_bit_beyond:
  fixes w :: "'a::len word"
  assumes "LENGTH('a) \<le> m"
  shows "filter (bit w) [m..<n] = []"
  using assms by (auto simp add: filter_empty_conv dest: bit_imp_le_length)

lemma builtin_popcount_ucast:
  fixes w :: "'a::len word"
  assumes "LENGTH('a) \<le> 64"
  shows "builtin_popcount (ucast w) = word_popcount w"
proof -
  have cast: "filter (bit (ucast w :: 64 word)) [0..<64] = filter (bit w) [0..<64]"
    by (rule filter_cong) (simp_all add: bit_ucast_iff)
  have split: "[0..<64] = [0..<LENGTH('a)] @ [LENGTH('a)..<64]"
    using assms upt_add_eq_append [of 0 "LENGTH('a)" "64 - LENGTH('a)"] by simp
  have "filter (bit w) [0..<64] = filter (bit w) [0..<LENGTH('a)]"
    by (subst split) (simp add: filter_bit_beyond)
  then show ?thesis
    unfolding builtin_popcount_def word_popcount_def by (simp only: cast)
qed

lemma word_popcount_take_bit:
  fixes w :: "'a::len word"
  assumes "f \<le> LENGTH('a)"
  shows "word_popcount (take_bit f w) = length (filter (bit w) [0..<f])"
proof -
  have split: "[0..<LENGTH('a)] = [0..<f] @ [f..<LENGTH('a)]"
    using assms upt_add_eq_append [of 0 f "LENGTH('a) - f"] by simp
  have "filter (bit (take_bit f w)) [0..<f] = filter (bit w) [0..<f]"
    by (rule filter_cong) (simp_all add: bit_take_bit_iff)
  moreover have "filter (bit (take_bit f w)) [f..<LENGTH('a)] = []"
    by (auto simp add: filter_empty_conv bit_take_bit_iff)
  ultimately show ?thesis
    unfolding word_popcount_def by (subst split) simp
qed

lemma fold_add_sum_list:
  "fold (\<lambda>i ret. ret + h i) is (r::nat) = r + sum_list (map h is)"
  by (induction "is" arbitrary: r) simp_all

lemma sum_list_tail_by_index:
  "sum_list (map (\<lambda>i. g ((w # ws) ! i)) [1..<length (w # ws)]) = sum_list (map g ws)"
proof -
  have "[1..<length (w # ws)] = map Suc [0..<length ws]"
    by (simp only: list.size map_Suc_upt One_nat_def add_Suc_right add_0_right)
  then have "map (\<lambda>i. g ((w # ws) ! i)) [1..<length (w # ws)]
           = map (\<lambda>i. g (ws ! i)) [0..<length ws]"
    by (simp only: map_map o_def nth_Cons_Suc)
  also have "\<dots> = map g (map ((!) ws) [0..<length ws])"
    by (simp only: map_map o_def)
  also have "\<dots> = map g ws" by (simp only: map_nth)
  finally show ?thesis by (rule arg_cong)
qed

lemma popcount_words:
  fixes w :: "'a::len word"
  assumes "LENGTH('a) \<le> 64"
  shows "popcount N (w # ws)
       = (if first_bits N LENGTH('a) = LENGTH('a) then 0
          else word_popcount (take_bit (first_bits N LENGTH('a)) w))
         + sum_list (map word_popcount ws)"
proof -
  have top: "(push_bit f 1 - 1) AND w = take_bit f w" for f
    by (simp add: take_bit_eq_mask mask_eq_exp_minus_1 and.commute)
  have rest: "sum_list (map (\<lambda>i. builtin_popcount (ucast ((w # ws) ! i))) [1..<length (w # ws)])
            = sum_list (map (\<lambda>u. builtin_popcount (ucast u)) ws)"
    by (rule sum_list_tail_by_index [of "\<lambda>u. builtin_popcount (ucast u)"])
  have "popcount N (w # ws)
      = (if first_bits N LENGTH('a) = LENGTH('a) then 0
         else builtin_popcount (ucast ((push_bit (first_bits N LENGTH('a)) 1 - 1) AND w)))
        + sum_list (map (\<lambda>u. builtin_popcount (ucast u)) ws)"
    unfolding popcount_def Let_def fold_add_sum_list rest
    by (simp only: nth_Cons_0)
  then show ?thesis
    by (simp only: top builtin_popcount_ucast [OF assms])
qed

lemma count_val_be_Cons:
  fixes w :: "'a::len word"
  shows "length (filter (bit (val_be (w # ws))) [0..<LENGTH('a) * length ws + f])
       = length (filter (bit (val_be ws)) [0..<LENGTH('a) * length ws])
         + length (filter (bit w) [0..<f])"
proof -
  let ?m = "LENGTH('a) * length ws"
  let ?V = "val_be (w # ws)"
  have split: "[0..<?m + f] = [0..<?m] @ [?m..<?m + f]"
    using upt_add_eq_append [of 0 ?m f] by simp
  have low: "filter (bit ?V) [0..<?m] = filter (bit (val_be ws)) [0..<?m]"
    by (rule filter_cong) (simp_all add: val_be_concat bit_concat_bit_iff del: val_be.simps)
  have "[?m..<?m + f] = map (\<lambda>k. k + ?m) [0..<f]"
    using map_add_upt [of ?m f] by (simp add: add.commute)
  then have "filter (bit ?V) [?m..<?m + f] = map (\<lambda>k. k + ?m) (filter (bit ?V \<circ> (\<lambda>k. k + ?m)) [0..<f])"
    by (simp only: filter_map)
  moreover have "filter (bit ?V \<circ> (\<lambda>k. k + ?m)) [0..<f] = filter (bit w) [0..<f]"
    by (rule filter_cong)
      (auto simp add: val_be_concat bit_concat_bit_iff bit_uint_iff simp del: val_be.simps
        dest: bit_imp_le_length)
  ultimately have high: "length (filter (bit ?V) [?m..<?m + f]) = length (filter (bit w) [0..<f])"
    by simp
  show ?thesis
    by (simp only: split filter_append length_append low high)
qed

lemma count_val_be:
  fixes ws :: "'a::len storage_type"
  shows "length (filter (bit (val_be ws)) [0..<LENGTH('a) * length ws])
       = sum_list (map word_popcount ws)"
proof (induction ws)
  case Nil
  show ?case by simp
next
  case (Cons u us)
  have "LENGTH('a) * length (u # us) = LENGTH('a) * length us + LENGTH('a)" by simp
  then show ?case
    using count_val_be_Cons [of u us "LENGTH('a)"] Cons.IH
    by (simp only: word_popcount_def list.map sum_list.Cons add.commute)
qed

text \<open>
  What \<open>popcount\<close> returns against the number of positions below \<open>N\<close> that test
  as 1 (for word types that fit the \<open>uint64_t\<close> parameter of \<open>builtin_popcount\<close>):
  they agree when \<open>N\<close> is not a multiple of \<open>S\<close>; when it is, \<open>popcount\<close> falls
  short by the number of one bits of \<open>bits[0]\<close>.
\<close>

lemma popcount_logical:
  fixes x :: "'a::len storage_type"
  assumes S: "LENGTH('a) \<le> 64" and len: "length x = word_count N LENGTH('a)" and N: "0 < N"
  shows "popcount N x + (if N mod LENGTH('a) = 0 then word_popcount (x ! 0) else 0)
       = logical_popcount N x"
proof -
  let ?S = "LENGTH('a)"
  let ?f = "first_bits N ?S"
  from word_count_first [of ?S N] N len
  have W: "0 < length x" and Nsplit: "N = (length x - 1) * ?S + ?f" by simp_all
  then obtain w ws where x: "x = w # ws" by (cases x) auto
  have Nm: "N = ?S * length ws + ?f" using Nsplit x by (simp add: mult.commute)
  have lt: "N mod ?S < ?S" by simp
  then have le: "N mod ?S \<le> ?S" and ne: "N mod ?S \<noteq> ?S" by linarith+
  have f: "?f \<le> ?S" "?f = ?S \<longleftrightarrow> N mod ?S = 0"
    using le ne by (auto simp add: first_bits_def)
  have "test x q = Some True \<longleftrightarrow> bit (val_be x) q" if "q \<in> set [0..<N]" for q
    using that index_in_range [of q N ?S] len by (simp add: test_val_be)
  then have "logical_popcount N x = length (filter (bit (val_be x)) [0..<N])"
    unfolding logical_popcount_def by (intro arg_cong [where f = length] filter_cong) simp_all
  also have "\<dots> = length (filter (bit (val_be (w # ws))) [0..<?S * length ws + ?f])"
    using Nm x by simp
  also have "\<dots> = sum_list (map word_popcount ws) + length (filter (bit w) [0..<?f])"
    by (simp only: count_val_be_Cons count_val_be)
  also have "length (filter (bit w) [0..<?f]) = word_popcount (take_bit ?f w)"
    using word_popcount_take_bit [OF f(1), of w] by simp
  finally have logical: "logical_popcount N x
      = sum_list (map word_popcount ws) + word_popcount (take_bit ?f w)" .
  show ?thesis
  proof (cases "N mod ?S = 0")
    case True
    then have "?f = ?S" using f(2) by simp
    then show ?thesis using True logical by (simp add: x popcount_words [OF S])
  next
    case False
    then have "?f \<noteq> ?S" using f(2) by simp
    then show ?thesis using False logical by (simp add: x popcount_words [OF S])
  qed
qed

text \<open>
  Claim C1 on the code: \<open>popcount(uint_n<8, uint8_t>(255))\<close>.  \<open>N = S = 8\<close>, so
  \<open>first = S\<close> and the conditional takes its \<open>0\<close> branch: word 0, the only word, is not
  counted at all, although all eight positions test as 1.
\<close>

theorem popcount_aligned_top_word_dropped:
  "uint_n_of_word 8 (255 :: 8 word) = [255]
   \<and> first_bits 8 LENGTH(8) = LENGTH(8)
   \<and> popcount 8 [255 :: 8 word] = 0
   \<and> test [255 :: 8 word] 0 = Some True \<and> test [255 :: 8 word] 1 = Some True
   \<and> test [255 :: 8 word] 2 = Some True \<and> test [255 :: 8 word] 3 = Some True
   \<and> test [255 :: 8 word] 4 = Some True \<and> test [255 :: 8 word] 5 = Some True
   \<and> test [255 :: 8 word] 6 = Some True \<and> test [255 :: 8 word] 7 = Some True"
  by code_simp

section \<open>The repository's tests, replayed on the model\<close>

text \<open>
  \<open>uint_n_tests.cpp\<close> instantiates \<open>uint_n\<close> with \<open>uint8_t\<close>.  The stream output
  prints the low \<open>first\<close> bits of \<open>bits[0]\<close> and then every other word in full.
\<close>

lemma test_shift_left_operator:
  "shl_assign (uint_n_of_word 1 (1 :: 8 word)) 1 = Some [2]"
  "shl_assign (uint_n_of_word 2 (1 :: 8 word)) 1 = Some [2]"
  "shl_assign [0, 169 :: 8 word] 3 = Some [5, 72]"
  "shl_assign [0, 169, 8, 4 :: 8 word] 9 = Some [82, 16, 8, 0]"
  by code_simp+

lemma test_operator_pre_decrement:
  "pre_decrement [1 :: 8 word] = [0]"
  "take_bit 1 (pre_decrement [0 :: 8 word] ! 0) = 1"
  "pre_decrement [1, 1 :: 8 word] = [1, 0]"
  "pre_decrement [1, 0 :: 8 word] = [0, 255]"
  "pre_decrement [0, 0 :: 8 word] = [255, 255]"
  by code_simp+

lemma test_popcount:
  "popcount 1 (uint_n_of_word 1 (0 :: 8 word)) = 0"
  "popcount 1 (uint_n_of_word 1 (1 :: 8 word)) = 1"
  "popcount 2 (uint_n_of_word 2 (3 :: 8 word)) = 2"
  "popcount 2 (uint_n_of_word 2 (7 :: 8 word)) = 2"
  "popcount 9 [1, 1 :: 8 word] = 2"
  by code_simp+

lemma test_operator_bitwise_and:
  "and_assign [2, 7 :: 8 word] [3, 5] = [2, 5]"
  by code_simp

lemma test_set_and_unset:
  "set_uint_n [0, 0 :: 8 word] 10 = Some [4, 0]"
  "set_uint_n [4, 0 :: 8 word] 10 = Some [4, 0]"
  "unset [5, 138 :: 8 word] 8 = Some [4, 138]"
  by code_simp+

end
